theory Spec2Isabelle
  imports Main
begin

section \<open>Data model (types.ts)\<close>

text \<open>
  JavaScript strings are modelled as \<open>string\<close>; a \<open>char\<close> stands for a code unit below
  256. A \<open>number\<close> that holds an integer is an \<open>int\<close> (exact below \<open>2 ^ 53\<close>; the sign
  of zero is not kept, both zeros are falsy). An optional field is an \<open>option\<close>, with
  \<open>None\<close> for \<open>undefined\<close>. The field \<open>id\<close> is called \<open>host_id\<close>, \<open>group_id\<close>,
  \<open>tab_id\<close> in the three records.
\<close>

datatype HostStatus = idle | connected | error

record Host =
  host_id :: string
  name :: string
  hostname :: string
  user :: string
  port :: int
  groupId :: "string option"
  status :: HostStatus
  tags :: "string list option"
  identityFile :: "string option"
  extraArgs :: "string option"

record Group =
  group_id :: string
  group_name :: string
  isExpanded :: bool

record Tab =
  tab_id :: string
  hostId :: string
  isActive :: bool

section \<open>Application root (App.tsx)\<close>

record App =
  groups :: "Group list"
  hosts :: "Host list"
  tabs :: "Tab list"
  isSidebarOpen :: bool
  isSidebarPinned :: bool
  isHomebarOpen :: bool
  isEditorOpen :: bool
  editingHost :: "Host option"

text \<open>
  The template literals \<open>`t${Date.now()}`\<close> and \<open>`h${Date.now()}`\<close> print the clock
  reading in decimal. The reading is an input of the handlers that use it.
\<close>

definition digit_char :: "nat \<Rightarrow> char" where
  "digit_char d = ''0123456789'' ! d"

fun decimal :: "nat \<Rightarrow> string" where
  "decimal n = (if n < 10 then [digit_char n] else decimal (n div 10) @ [digit_char (n mod 10)])"

declare decimal.simps [simp del]

definition activeTab :: "App \<Rightarrow> Tab option" where
  "activeTab s = find isActive (tabs s)"

definition activeHost :: "App \<Rightarrow> Host option" where
  "activeHost s =
     (case activeTab s of
        Some t \<Rightarrow> find (\<lambda>h. host_id h = hostId t) (hosts s)
      | None \<Rightarrow> None)"

definition handleToggleGroup :: "string \<Rightarrow> App \<Rightarrow> App" where
  "handleToggleGroup gid s =
     s\<lparr>groups := map (\<lambda>g. if group_id g = gid then g\<lparr>isExpanded := \<not> isExpanded g\<rparr> else g) (groups s)\<rparr>"

definition handleConnect :: "nat \<Rightarrow> string \<Rightarrow> App \<Rightarrow> App" where
  "handleConnect now hid s =
     (let tabs' =
        (case find (\<lambda>t. hostId t = hid) (tabs s) of
           Some existingTab \<Rightarrow>
             map (\<lambda>t. t\<lparr>isActive := (tab_id t = tab_id existingTab)\<rparr>) (tabs s)
         | None \<Rightarrow>
             map (\<lambda>t. t\<lparr>isActive := False\<rparr>) (tabs s)
               @ [\<lparr>tab_id = ''t'' @ decimal now, hostId = hid, isActive = True\<rparr>])
      in s\<lparr>tabs := tabs',
           hosts := map (\<lambda>h. if host_id h = hid then h\<lparr>status := connected\<rparr> else h) (hosts s)\<rparr>)"

text \<open>
  \<open>handleCloseTab\<close> writes \<open>isActive\<close> into the last element of the filtered array; the
  array is the next state, so the write is a list update of that state. The optional chain
  \<open>tabs.find(...)?.isActive\<close> is \<open>undefined\<close>, hence falsy, when no tab has the id.
\<close>

definition handleCloseTab :: "string \<Rightarrow> App \<Rightarrow> App" where
  "handleCloseTab tid s =
     (let newTabs = filter (\<lambda>t. tab_id t \<noteq> tid) (tabs s) in
      s\<lparr>tabs :=
          (if length newTabs > 0 \<and>
              (case find (\<lambda>t. tab_id t = tid) (tabs s) of Some t \<Rightarrow> isActive t | None \<Rightarrow> False)
           then newTabs[length newTabs - 1 := (newTabs ! (length newTabs - 1))\<lparr>isActive := True\<rparr>]
           else newTabs)\<rparr>)"

definition handleSelectTab :: "string \<Rightarrow> App \<Rightarrow> App" where
  "handleSelectTab tid s = s\<lparr>tabs := map (\<lambda>t. t\<lparr>isActive := (tab_id t = tid)\<rparr>) (tabs s)\<rparr>"

definition handleNewHost :: "App \<Rightarrow> App" where
  "handleNewHost s = s\<lparr>editingHost := None, isEditorOpen := True\<rparr>"


definition handleSaveHost :: "nat \<Rightarrow> Host \<Rightarrow> App \<Rightarrow> App" where
  "handleSaveHost now h s =
     (case editingHost s of
        Some e \<Rightarrow> s\<lparr>hosts := map (\<lambda>x. if host_id x = host_id h then h else x) (hosts s)\<rparr>
      | None \<Rightarrow> s\<lparr>hosts := hosts s @ [h\<lparr>host_id := ''h'' @ decimal now, status := idle\<rparr>]\<rparr>)
     \<lparr>isEditorOpen := False\<rparr>"

definition closeEditor :: "App \<Rightarrow> App" where
  "closeEditor s = s\<lparr>isEditorOpen := False\<rparr>"

text \<open>The state the component starts from: the two seeded tables and one open tab.\<close>

definition INITIAL_GROUPS :: "Group list" where
  "INITIAL_GROUPS =
     [\<lparr>group_id = ''g1'', group_name = ''Production'', isExpanded = True\<rparr>,
      \<lparr>group_id = ''g2'', group_name = ''Staging'', isExpanded = True\<rparr>,
      \<lparr>group_id = ''g3'', group_name = ''Lab'', isExpanded = False\<rparr>]"

definition seed_host ::
  "string \<Rightarrow> string \<Rightarrow> string \<Rightarrow> string \<Rightarrow> int \<Rightarrow> string option \<Rightarrow> HostStatus \<Rightarrow> Host" where
  "seed_host i n hn u p g st =
     \<lparr>host_id = i, name = n, hostname = hn, user = u, port = p, groupId = g, status = st,
      tags = None, identityFile = None, extraArgs = None\<rparr>"

definition INITIAL_HOSTS :: "Host list" where
  "INITIAL_HOSTS =
     [seed_host ''h1'' ''web-prod-01'' ''10.0.1.10'' ''deploy'' 22 (Some ''g1'') connected,
      seed_host ''h2'' ''db-prod-01'' ''10.0.1.20'' ''admin'' 2222 (Some ''g1'') idle,
      seed_host ''h3'' ''web-stage-01'' ''10.0.2.10'' ''deploy'' 22 (Some ''g2'') idle,
      seed_host ''h4'' ''labvm01'' ''192.168.1.100'' ''root'' 22 (Some ''g3'') error,
      seed_host ''h5'' ''router-home'' ''192.168.0.1'' ''admin'' 22 None idle]"

definition initialApp :: App where
  "initialApp =
     \<lparr>groups = INITIAL_GROUPS, hosts = INITIAL_HOSTS,
      tabs = [\<lparr>tab_id = ''t1'', hostId = ''h1'', isActive = True\<rparr>],
      isSidebarOpen = True, isSidebarPinned = True, isHomebarOpen = True,
      isEditorOpen = False, editingHost = None\<rparr>"

subsection \<open>Sequences of tab operations\<close>

text \<open>
  A call of one of the three tab operations of the root component, with its argument and,
  for \<open>connect\<close>, the clock reading the call sees.
\<close>

datatype call = Connect string nat | CloseTab string | SelectTab string

fun perform :: "call \<Rightarrow> App \<Rightarrow> App" where
  "perform (Connect hid now) s = handleConnect now hid s"
| "perform (CloseTab tid) s = handleCloseTab tid s"
| "perform (SelectTab tid) s = handleSelectTab tid s"

text \<open>\<open>run s cs\<close> lists the states after each call of \<open>cs\<close>, started in \<open>s\<close>.\<close>

fun run :: "App \<Rightarrow> call list \<Rightarrow> App list" where
  "run s [] = []"
| "run s (c # cs) = perform c s # run (perform c s) cs"

definition single_active :: "Tab list \<Rightarrow> bool" where
  "single_active ts = (ts = [] \<or> length (filter isActive ts) = 1)"

text \<open>
  A call is in range when a \<open>selectTab\<close> names a tab that is open, and a \<open>connect\<close> that
  opens a new tab gives it an id that no open tab has.
\<close>

fun in_range :: "call \<Rightarrow> App \<Rightarrow> bool" where
  "in_range (Connect hid now) s =
     (hid \<in> hostId ` set (tabs s) \<or> ''t'' @ decimal now \<notin> tab_id ` set (tabs s))"
| "in_range (CloseTab tid) s = True"
| "in_range (SelectTab tid) s = (tid \<in> tab_id ` set (tabs s))"

fun all_in_range :: "App \<Rightarrow> call list \<Rightarrow> bool" where
  "all_in_range s [] = True"
| "all_in_range s (c # cs) = (in_range c s \<and> all_in_range (perform c s) cs)"

text \<open>
  The clock readings that the \<open>connect\<close> calls of a sequence see, and the sequences in
  which every \<open>selectTab\<close> names a tab that is open when it is called.
\<close>

fun clocks :: "call list \<Rightarrow> nat list" where
  "clocks [] = []"
| "clocks (Connect hid now # cs) = now # clocks cs"
| "clocks (CloseTab tid # cs) = clocks cs"
| "clocks (SelectTab tid # cs) = clocks cs"

fun selects_open :: "App \<Rightarrow> call list \<Rightarrow> bool" where
  "selects_open s [] = True"
| "selects_open s (SelectTab tid # cs) =
     (tid \<in> tab_id ` set (tabs s) \<and> selects_open (handleSelectTab tid s) cs)"
| "selects_open s (c # cs) = selects_open (perform c s) cs"

section \<open>String operations of the language\<close>

text \<open>
  White space and line terminators among the code units below 256: TAB, LF, VT, FF, CR,
  SP and NBSP. \<open>trim\<close> and \<open>parseInt\<close> skip the same set.
\<close>

definition isWhiteSpace :: "char \<Rightarrow> bool" where
  "isWhiteSpace c = (c \<in> set [CHR 0x09, CHR 0x0A, CHR 0x0B, CHR 0x0C, CHR 0x0D, CHR 0x20, CHR 0xA0])"

definition trim :: "string \<Rightarrow> string" where
  "trim s = rev (dropWhile isWhiteSpace (rev (dropWhile isWhiteSpace s)))"

text \<open>
  \<open>s.split(sep)\<close> for a separator of one code unit; the empty string gives \<open>[""]\<close>.
  The result always has a piece, so the last case of the second equation never arises.
\<close>

fun split_str :: "char \<Rightarrow> string \<Rightarrow> string list" where
  "split_str sep [] = [[]]"
| "split_str sep (c # cs) =
     (if c = sep then [] # split_str sep cs
      else (case split_str sep cs of p # ps \<Rightarrow> (c # p) # ps | [] \<Rightarrow> [[c]]))"

text \<open>
  \<open>toLowerCase\<close> on code units below 256: the letters A to Z, and the capital letters of
  the Latin-1 block (0xC0 to 0xDE without the multiplication sign 0xD7), move up by 32.
\<close>

definition upper_lower :: "(char \<times> char) list" where
  "upper_lower =
     zip ''ABCDEFGHIJKLMNOPQRSTUVWXYZ'' ''abcdefghijklmnopqrstuvwxyz''
     @ zip [CHR 0xC0, CHR 0xC1, CHR 0xC2, CHR 0xC3, CHR 0xC4, CHR 0xC5, CHR 0xC6, CHR 0xC7,
            CHR 0xC8, CHR 0xC9, CHR 0xCA, CHR 0xCB, CHR 0xCC, CHR 0xCD, CHR 0xCE, CHR 0xCF,
            CHR 0xD0, CHR 0xD1, CHR 0xD2, CHR 0xD3, CHR 0xD4, CHR 0xD5, CHR 0xD6,
            CHR 0xD8, CHR 0xD9, CHR 0xDA, CHR 0xDB, CHR 0xDC, CHR 0xDD, CHR 0xDE]
           [CHR 0xE0, CHR 0xE1, CHR 0xE2, CHR 0xE3, CHR 0xE4, CHR 0xE5, CHR 0xE6, CHR 0xE7,
            CHR 0xE8, CHR 0xE9, CHR 0xEA, CHR 0xEB, CHR 0xEC, CHR 0xED, CHR 0xEE, CHR 0xEF,
            CHR 0xF0, CHR 0xF1, CHR 0xF2, CHR 0xF3, CHR 0xF4, CHR 0xF5, CHR 0xF6,
            CHR 0xF8, CHR 0xF9, CHR 0xFA, CHR 0xFB, CHR 0xFC, CHR 0xFD, CHR 0xFE]"

definition toLowerChar :: "char \<Rightarrow> char" where
  "toLowerChar c = (case map_of upper_lower c of Some l \<Rightarrow> l | None \<Rightarrow> c)"

definition toLowerCase :: "string \<Rightarrow> string" where
  "toLowerCase s = map toLowerChar s"

text \<open>\<open>s.includes(q)\<close>: \<open>q\<close> stands at some position of \<open>s\<close>.\<close>

fun includes_str :: "string \<Rightarrow> string \<Rightarrow> bool" where
  "includes_str [] q = (q = [])"
| "includes_str (c # s) q = (take (length q) (c # s) = q \<or> includes_str s q)"

text \<open>
  \<open>parseInt(string)\<close> with no radix, step by step as the language defines it: skip leading
  white space, read a sign, read a \<open>0x\<close> or \<open>0X\<close> prefix (radix 16, else 10), keep the
  longest run of digits of the radix; no digit gives \<open>NaN\<close>, here \<open>None\<close>.
\<close>

definition digitValue :: "char \<Rightarrow> nat option" where
  "digitValue c =
     map_of (zip ''0123456789abcdef'' [0, 1, 2, 3, 4, 5, 6, 7, 8, 9, 10, 11, 12, 13, 14, 15]
             @ zip ''ABCDEF'' [10, 11, 12, 13, 14, 15]) c"


definition mathInt :: "nat \<Rightarrow> string \<Rightarrow> nat" where
  "mathInt R Z = foldl (\<lambda>acc c. case digitValue c of Some d \<Rightarrow> acc * R + d | None \<Rightarrow> acc) 0 Z"


section \<open>Host editor (HostEditor.tsx)\<close>

text \<open>The form data is a \<open>Partial<Host>\<close>: every field may be absent.\<close>

record PartialHost =
  f_id :: "string option"
  f_name :: "string option"
  f_hostname :: "string option"
  f_user :: "string option"
  f_port :: "int option"
  f_groupId :: "string option"
  f_status :: "HostStatus option"
  f_tags :: "string list option"
  f_identityFile :: "string option"
  f_extraArgs :: "string option"

definition of_Host :: "Host \<Rightarrow> PartialHost" where
  "of_Host h =
     \<lparr>f_id = Some (host_id h), f_name = Some (name h), f_hostname = Some (hostname h),
      f_user = Some (user h), f_port = Some (port h), f_groupId = groupId h,
      f_status = Some (status h), f_tags = tags h, f_identityFile = identityFile h,
      f_extraArgs = extraArgs h\<rparr>"

definition initialFormData :: "Host option \<Rightarrow> PartialHost" where
  "initialFormData host =
     (case host of
        Some h \<Rightarrow> of_Host h
      | None \<Rightarrow>
          \<lparr>f_id = None, f_name = Some [], f_hostname = Some [], f_user = Some ''root'',
           f_port = Some 22, f_groupId = Some [], f_status = None, f_tags = Some [],
           f_identityFile = Some [], f_extraArgs = Some []\<rparr>)"




text \<open>The \<open>onChange\<close> of the tags input.\<close>

definition tagsChange :: "string \<Rightarrow> PartialHost \<Rightarrow> PartialHost" where
  "tagsChange v formData =
     formData\<lparr>f_tags := Some (filter (\<lambda>t. t \<noteq> []) (map trim (split_str CHR '','' v)))\<rparr>"

text \<open>A string is truthy when it is present and not empty.\<close>

definition truthy :: "string option \<Rightarrow> bool" where
  "truthy v = (case v of None \<Rightarrow> False | Some s \<Rightarrow> s \<noteq> [])"

text \<open>
  \<open>handleSubmit\<close> either returns without calling \<open>onSave\<close> (\<open>None\<close>) or calls it with
  the form data (\<open>Some\<close>). It raises nothing and sets no state of the editor.
\<close>

definition handleSubmit :: "PartialHost \<Rightarrow> PartialHost option" where
  "handleSubmit formData =
     (if \<not> truthy (f_name formData) \<or> \<not> truthy (f_hostname formData) then None
      else Some formData)"

text \<open>
  \<open>formData as Host\<close> checks nothing: a field the form data lacks stays \<open>undefined\<close>.
  The record \<open>Host\<close> has no such value for a required field, so the cast reads a lacking
  required field from a host \<open>u\<close> given with it; what is proved holds for every \<open>u\<close>.
\<close>

definition as_Host :: "Host \<Rightarrow> PartialHost \<Rightarrow> Host" where
  "as_Host u fd =
     \<lparr>host_id = (case f_id fd of Some x \<Rightarrow> x | None \<Rightarrow> host_id u),
      name = (case f_name fd of Some x \<Rightarrow> x | None \<Rightarrow> name u),
      hostname = (case f_hostname fd of Some x \<Rightarrow> x | None \<Rightarrow> hostname u),
      user = (case f_user fd of Some x \<Rightarrow> x | None \<Rightarrow> user u),
      port = (case f_port fd of Some x \<Rightarrow> x | None \<Rightarrow> port u),
      groupId = f_groupId fd,
      status = (case f_status fd of Some x \<Rightarrow> x | None \<Rightarrow> status u),
      tags = f_tags fd, identityFile = f_identityFile fd, extraArgs = f_extraArgs fd\<rparr>"

text \<open>
  The root component with the editor it mounts: \<open>onSave\<close> is \<open>handleSaveHost\<close>. The
  form data counts while the editor is open.
\<close>

record Screen =
  app :: App
  formData :: PartialHost

definition submit :: "nat \<Rightarrow> Host \<Rightarrow> Screen \<Rightarrow> Screen" where
  "submit now u sc =
     (case handleSubmit (formData sc) of
        None \<Rightarrow> sc
      | Some fd \<Rightarrow> sc\<lparr>app := handleSaveHost now (as_Host u fd) (app sc)\<rparr>)"

text \<open>The screen right after "New Host" is pressed in the initial state.\<close>

definition newHostScreen :: Screen where
  "newHostScreen = \<lparr>app = handleNewHost initialApp, formData = initialFormData None\<rparr>"

section \<open>Sidebar (Sidebar.tsx)\<close>

definition filteredHosts :: "string \<Rightarrow> Host list \<Rightarrow> Host list" where
  "filteredHosts searchQuery hs =
     filter (\<lambda>h.
        includes_str (toLowerCase (name h)) (toLowerCase searchQuery)
        \<or> includes_str (toLowerCase (hostname h)) (toLowerCase searchQuery)
        \<or> (case tags h of
             None \<Rightarrow> False
           | Some ts \<Rightarrow> list_ex (\<lambda>t. includes_str (toLowerCase t) (toLowerCase searchQuery)) ts)) hs"

text \<open>
  What the tree view shows. With a search text: the filtered hosts in one flat list, and
  whether the "No hosts found." line stands under it. Without: one row per group, with
  the hosts under it when the group is expanded (\<open>None\<close> when it is collapsed), then the
  hosts whose \<open>groupId\<close> is falsy.
\<close>

datatype TreeView =
  FlatList "Host list" bool
  | GroupTree "(Group \<times> Host list option) list" "Host list"

definition treeView :: "string \<Rightarrow> Group list \<Rightarrow> Host list \<Rightarrow> TreeView" where
  "treeView searchQuery gs hs =
     (if searchQuery \<noteq> [] then
        FlatList (filteredHosts searchQuery hs) (length (filteredHosts searchQuery hs) = 0)
      else
        GroupTree
          (map (\<lambda>group.
             (group,
              if isExpanded group
              then Some (filter (\<lambda>h. groupId h = Some (group_id group)) hs)
              else None)) gs)
          (filter (\<lambda>h. \<not> truthy (groupId h)) hs))"

datatype SidebarView = Rail | Panel TreeView

definition Sidebar :: "bool \<Rightarrow> string \<Rightarrow> Group list \<Rightarrow> Host list \<Rightarrow> SidebarView" where
  "Sidebar isOpen searchQuery gs hs = (if \<not> isOpen then Rail else Panel (treeView searchQuery gs hs))"

text \<open>The hosts a tree view shows under its groups, and in its trailing section.\<close>

fun under_groups :: "TreeView \<Rightarrow> Host list" where
  "under_groups (FlatList hs e) = []"
| "under_groups (GroupTree rows u) =
     concat (map (\<lambda>(g, r). case r of Some hs \<Rightarrow> hs | None \<Rightarrow> []) rows)"

fun ungrouped :: "TreeView \<Rightarrow> Host list" where
  "ungrouped (FlatList hs e) = []"
| "ungrouped (GroupTree rows u) = u"

text \<open>
  Hosts to search and browse: one with \<open>lab\<close> in its name, in the collapsed group \<open>g3\<close>;
  one without a group; one with the tag \<open>Lab\<close>; one whose group \<open>g9\<close> does not exist;
  one whose group is the empty string, as the editor stores "None".
\<close>

definition labHosts :: "Host list" where
  "labHosts =
     [seed_host ''h4'' ''labvm01'' ''192.168.1.100'' ''root'' 22 (Some ''g3'') error,
      seed_host ''h5'' ''router-home'' ''192.168.0.1'' ''admin'' 22 None idle,
      (seed_host ''h6'' ''nas'' ''10.0.0.9'' ''root'' 22 (Some ''g3'') idle)
        \<lparr>tags := Some [''storage'', ''Lab'']\<rparr>,
      seed_host ''h7'' ''stray'' ''10.0.0.7'' ''root'' 22 (Some ''g9'') idle,
      seed_host ''h8'' ''loose'' ''10.0.0.8'' ''root'' 22 (Some []) idle]"

section \<open>The properties, in the words of the specification\<close>




text \<open>Joining pieces with a separator between them, the converse of splitting.\<close>

fun join :: "char \<Rightarrow> string list \<Rightarrow> string" where
  "join sep [] = []"
| "join sep [p] = p"
| "join sep (p # q # ps) = p @ sep # join sep (q # ps)"

text \<open>
  Splitting a string on a separator gives pieces without the separator that, joined with
  it, are the string again. Trimming a piece takes white space, and nothing else, off its
  two ends, until no white space stands at either end.
\<close>

definition is_split :: "char \<Rightarrow> string \<Rightarrow> string list \<Rightarrow> bool" where
  "is_split sep s ps = (ps \<noteq> [] \<and> join sep ps = s \<and> (\<forall>p \<in> set ps. sep \<notin> set p))"

definition is_trimmed :: "string \<Rightarrow> string \<Rightarrow> bool" where
  "is_trimmed p t =
     ((\<exists>l r. p = l @ t @ r \<and> list_all isWhiteSpace l \<and> list_all isWhiteSpace r)
      \<and> (t = [] \<or> (\<not> isWhiteSpace (hd t) \<and> \<not> isWhiteSpace (last t))))"



text \<open>
  What every tab operation keeps, when its argument is in range: the ids of the open tabs
  are pairwise distinct, and the list is empty or has exactly one active tab.
\<close>

definition tabs_ok :: "Tab list \<Rightarrow> bool" where
  "tabs_ok ts = (distinct (map tab_id ts) \<and> single_active ts)"

text \<open>States and calls to try the operations on.\<close>

definition noTabs :: App where
  "noTabs = initialApp\<lparr>tabs := []\<rparr>"

definition twoTabsOneClock :: App where
  "twoTabsOneClock = handleConnect 5 ''h2'' (handleConnect 5 ''h1'' noTabs)"

definition threeTabs :: App where
  "threeTabs = initialApp\<lparr>tabs :=
     [\<lparr>tab_id = ''t1'', hostId = ''h1'', isActive = False\<rparr>,
      \<lparr>tab_id = ''t2'', hostId = ''h2'', isActive = True\<rparr>,
      \<lparr>tab_id = ''t3'', hostId = ''h3'', isActive = False\<rparr>]\<rparr>"

definition someCalls :: "call list" where
  "someCalls = [Connect ''h1'' 5, Connect ''h2'' 6, SelectTab ''t5'', CloseTab ''t5'',
                Connect ''h3'' 7, Connect ''h2'' 8, CloseTab ''zz'', CloseTab ''t6'', CloseTab ''t7'']"


section \<open>Connecting to a host\<close>

lemma find_hostId_None: "find (\<lambda>t. hostId t = hid) ts = None \<longleftrightarrow> hid \<notin> hostId ` set ts"
  by (auto simp: find_None_iff)

lemma map_hosts_unchanged:
  "hid \<notin> host_id ` set hs \<Longrightarrow>
   map (\<lambda>h. if host_id h = hid then h\<lparr>status := connected\<rparr> else h) hs = hs"
  by (induction hs) auto

text \<open>
  Claim C10. \<open>connect\<close> does not check that its argument names a host: when no host and no
  tab has the given host id, the call still appends a new active tab for that id after the
  existing tabs, all of them deactivated and otherwise as they were, and the list of hosts
  stays exactly as it was.
\<close>

theorem connect_unknown_host:
  assumes "hid \<notin> host_id ` set (hosts s)" and "hid \<notin> hostId ` set (tabs s)"
  shows "hosts (handleConnect now hid s) = hosts s
       \<and> tabs (handleConnect now hid s) =
           map (\<lambda>t. t\<lparr>isActive := False\<rparr>) (tabs s)
             @ [\<lparr>tab_id = ''t'' @ decimal now, hostId = hid, isActive = True\<rparr>]
       \<and> length (tabs (handleConnect now hid s)) = Suc (length (tabs s))
       \<and> hostId (last (tabs (handleConnect now hid s))) = hid
       \<and> isActive (last (tabs (handleConnect now hid s)))
       \<and> filter isActive (tabs (handleConnect now hid s)) = [last (tabs (handleConnect now hid s))]"
proof -
  from assms(2) have f: "find (\<lambda>t. hostId t = hid) (tabs s) = None"
    by (simp add: find_hostId_None)
  have tabs_eq: "tabs (handleConnect now hid s) =
      map (\<lambda>t. t\<lparr>isActive := False\<rparr>) (tabs s)
        @ [\<lparr>tab_id = ''t'' @ decimal now, hostId = hid, isActive = True\<rparr>]"
    by (simp add: handleConnect_def f)
  have hosts_eq: "hosts (handleConnect now hid s) = hosts s"
    using assms(1) by (simp add: handleConnect_def Let_def map_hosts_unchanged)
  have none: "filter isActive (map (\<lambda>t. t\<lparr>isActive := False\<rparr>) ts) = []" for ts :: "Tab list"
    by (induction ts) auto
  show ?thesis
    by (simp add: tabs_eq hosts_eq none)
qed

theorem connect_unknown_host_witness:
  "''h9'' \<notin> host_id ` set (hosts initialApp) \<and> ''h9'' \<notin> hostId ` set (tabs initialApp)
   \<and> hosts (handleConnect 42 ''h9'' initialApp) = hosts initialApp
   \<and> tabs (handleConnect 42 ''h9'' initialApp) =
        [\<lparr>tab_id = ''t1'', hostId = ''h1'', isActive = False\<rparr>,
         \<lparr>tab_id = ''t42'', hostId = ''h9'', isActive = True\<rparr>]"
  using connect_unknown_host [of "''h9''" initialApp 42]
  by (simp add: initialApp_def INITIAL_HOSTS_def seed_host_def decimal.simps digit_char_def)

section \<open>Submitting the host form\<close>

text \<open>
  Claim C6. Submitting the form while the name or the hostname is empty (absent or the
  empty string) changes nothing: \<open>handleSubmit\<close> returns without calling the save
  operation, so the whole screen state is as before; in particular the list of hosts is
  unchanged and the editor is open exactly when it was before. The handler has no error to
  return and sets no state.
\<close>

theorem submit_empty_swallowed:
  assumes "f_name (formData sc) = None \<or> f_name (formData sc) = Some []
         \<or> f_hostname (formData sc) = None \<or> f_hostname (formData sc) = Some []"
  shows "handleSubmit (formData sc) = None
       \<and> submit now u sc = sc
       \<and> hosts (app (submit now u sc)) = hosts (app sc)
       \<and> isEditorOpen (app (submit now u sc)) = isEditorOpen (app sc)"
proof -
  from assms have "\<not> truthy (f_name (formData sc)) \<or> \<not> truthy (f_hostname (formData sc))"
    by (auto simp: truthy_def)
  then have "handleSubmit (formData sc) = None"
    by (simp add: handleSubmit_def)
  then show ?thesis
    by (simp add: submit_def)
qed

theorem submit_empty_swallowed_witness:
  "f_name (formData newHostScreen) = Some []
   \<and> submit 42 (hd INITIAL_HOSTS) newHostScreen = newHostScreen
   \<and> hosts (app (submit 42 (hd INITIAL_HOSTS) newHostScreen)) = INITIAL_HOSTS
   \<and> isEditorOpen (app (submit 42 (hd INITIAL_HOSTS) newHostScreen))"
  using submit_empty_swallowed [of newHostScreen 42 "hd INITIAL_HOSTS"]
  by (simp add: newHostScreen_def initialFormData_def handleNewHost_def initialApp_def)

text \<open>With both fields filled in, the form data does reach the save operation.\<close>

lemma submit_filled_saves:
  "truthy (f_name (formData sc)) \<Longrightarrow> truthy (f_hostname (formData sc)) \<Longrightarrow>
   submit now u sc = sc\<lparr>app := handleSaveHost now (as_Host u (formData sc)) (app sc)\<rparr>"
  by (simp add: submit_def handleSubmit_def)

section \<open>The tags field\<close>

subsection \<open>Splitting\<close>

lemma split_str_not_Nil [simp]: "split_str sep s \<noteq> []"
  by (induction s) (auto split: list.splits)

lemma split_str_no_sep: "sep \<notin> set p \<Longrightarrow> split_str sep p = [p]"
  by (induction p) auto

lemma split_str_append_sep:
  "sep \<notin> set p \<Longrightarrow> split_str sep (p @ sep # rest) = p # split_str sep rest"
  by (induction p) auto

lemma is_split_unique: "is_split sep s ps \<Longrightarrow> ps = split_str sep s"
proof (induction sep ps arbitrary: s rule: join.induct)
  case (1 sep)
  then show ?case by (simp add: is_split_def)
next
  case (2 sep p)
  then show ?case by (auto simp: is_split_def split_str_no_sep)
next
  case (3 sep p q ps)
  from "3.prems" have s: "s = p @ sep # join sep (q # ps)" and p: "sep \<notin> set p"
    and rest: "is_split sep (join sep (q # ps)) (q # ps)"
    by (auto simp: is_split_def)
  from "3.IH" [OF rest] have "q # ps = split_str sep (join sep (q # ps))" .
  with s p show ?case by (simp add: split_str_append_sep)
qed

lemma join_split_str: "join sep (split_str sep s) = s"
proof (induction s)
  case Nil
  then show ?case by simp
next
  case (Cons c cs)
  obtain p ps where sp: "split_str sep cs = p # ps"
    by (cases "split_str sep cs") auto
  with Cons show ?case by (cases ps) auto
qed

lemma split_str_pieces: "p \<in> set (split_str sep s) \<Longrightarrow> sep \<notin> set p"
proof (induction s arbitrary: p)
  case Nil
  then show ?case by simp
next
  case (Cons c cs)
  obtain q qs where sp: "split_str sep cs = q # qs"
    by (cases "split_str sep cs") auto
  with Cons show ?case by (auto split: if_splits)
qed

lemma split_str_is_split: "is_split sep s (split_str sep s)"
  by (simp add: is_split_def join_split_str split_str_pieces)

subsection \<open>Trimming\<close>

lemma dropWhile_Nil: "\<forall>x\<in>set xs. P x \<Longrightarrow> dropWhile P xs = []"
  by (induction xs) auto

lemma dropWhile_all: "list_all P xs \<Longrightarrow> dropWhile P (xs @ ys) = dropWhile P ys"
  by (induction xs) auto

lemma is_trimmed_unique:
  assumes "is_trimmed p t" shows "t = trim p"
proof -
  from assms obtain l r where p: "p = l @ t @ r" and l: "list_all isWhiteSpace l"
    and r: "list_all isWhiteSpace r"
    and t: "t = [] \<or> (\<not> isWhiteSpace (hd t) \<and> \<not> isWhiteSpace (last t))"
    by (auto simp: is_trimmed_def)
  show ?thesis
  proof (cases "t = []")
    case True
    with p l r have "\<forall>x\<in>set p. isWhiteSpace x"
      by (auto simp: list_all_iff)
    then have d: "dropWhile isWhiteSpace p = []"
      by (rule dropWhile_Nil)
    have "trim p = []"
      unfolding trim_def d by simp
    with True show ?thesis by simp
  next
    case False
    with t have h: "\<not> isWhiteSpace (hd t)" and e: "\<not> isWhiteSpace (last t)" by auto
    from False h have d1: "dropWhile isWhiteSpace (t @ r) = t @ r"
      by (cases t) auto
    have d2: "dropWhile isWhiteSpace (rev r @ rev t) = dropWhile isWhiteSpace (rev t)"
      using r by (intro dropWhile_all) (simp add: list_all_iff)
    from False e have d3: "dropWhile isWhiteSpace (rev t) = rev t"
      by (cases t rule: rev_cases) auto
    show ?thesis
      using l by (simp add: trim_def p dropWhile_all d1 d2 d3)
  qed
qed

lemma trim_is_trimmed: "is_trimmed p (trim p)"
proof -
  let ?l = "takeWhile isWhiteSpace p"
  let ?m = "dropWhile isWhiteSpace p"
  let ?r = "rev (takeWhile isWhiteSpace (rev ?m))"
  have 1: "p = ?l @ ?m" by simp
  have "rev ?m = takeWhile isWhiteSpace (rev ?m) @ dropWhile isWhiteSpace (rev ?m)" by simp
  then have "?m = rev (dropWhile isWhiteSpace (rev ?m)) @ ?r"
    by (metis rev_append rev_rev_ident)
  then have 2: "?m = trim p @ ?r" by (simp add: trim_def)
  from 1 2 have eq: "p = ?l @ trim p @ ?r" by metis
  have wl: "list_all isWhiteSpace ?l"
    by (simp add: list_all_iff) (meson set_takeWhileD)
  have wr: "list_all isWhiteSpace ?r"
    by (simp add: list_all_iff) (meson set_takeWhileD)
  have ends: "trim p = [] \<or> (\<not> isWhiteSpace (hd (trim p)) \<and> \<not> isWhiteSpace (last (trim p)))"
  proof (cases "trim p = []")
    case True then show ?thesis by simp
  next
    case False
    then have ne: "dropWhile isWhiteSpace (rev ?m) \<noteq> []" by (simp add: trim_def)
    then have lastok: "\<not> isWhiteSpace (hd (dropWhile isWhiteSpace (rev ?m)))"
      by (rule hd_dropWhile)
    have l: "last (trim p) = hd (dropWhile isWhiteSpace (rev ?m))"
      using ne by (simp add: trim_def last_rev)
    have mne: "?m \<noteq> []"
    proof
      assume "?m = []"
      then have "dropWhile isWhiteSpace (rev ?m) = []" by (simp only: rev.simps dropWhile.simps)
      with ne show False by simp
    qed
    then have hm: "\<not> isWhiteSpace (hd ?m)" by (rule hd_dropWhile)
    have "hd (trim p @ ?r) = hd (trim p)" using False by simp
    with 2 have "hd ?m = hd (trim p)" by metis
    with hm l lastok show ?thesis by simp
  qed
  from eq wl wr ends show ?thesis
    unfolding is_trimmed_def by blast
qed

lemma list_all2_trimmed: "list_all2 is_trimmed ps ts \<Longrightarrow> ts = map trim ps"
  by (induction rule: list_all2_induct) (auto dest: is_trimmed_unique)

lemma list_all2_trim: "list_all2 is_trimmed ps (map trim ps)"
  by (induction ps) (auto simp: trim_is_trimmed)

text \<open>
  Claim C9. For every string entered in the tags field, the tags of the form data are
  replaced wholesale, whatever they were, and no other field changes: the new list has
  the pieces of the string between its commas, each trimmed, the empty ones dropped, in
  their order. This holds for any way of obtaining the pieces and their trimmed forms
  that meets the description, and \<open>split\<close> and \<open>trim\<close> are such a way. The input
  \<open>"prod, web,  linux ,"\<close> gives exactly \<open>["prod","web","linux"]\<close>.
\<close>

theorem tags_field:
  "(\<forall>ps ts. is_split CHR '','' v ps \<and> list_all2 is_trimmed ps ts \<longrightarrow>
       tagsChange v fd = fd\<lparr>f_tags := Some (filter (\<lambda>t. t \<noteq> []) ts)\<rparr>)
   \<and> is_split CHR '','' v (split_str CHR '','' v)
   \<and> list_all2 is_trimmed (split_str CHR '','' v) (map trim (split_str CHR '','' v))
   \<and> f_tags (tagsChange ''prod, web,  linux ,'' fd) = Some [''prod'', ''web'', ''linux'']"
proof -
  have A: "tagsChange v fd = fd\<lparr>f_tags := Some (filter (\<lambda>t. t \<noteq> []) ts)\<rparr>"
    if sp: "is_split CHR '','' v ps" and tr: "list_all2 is_trimmed ps ts" for ps ts
  proof -
    from sp have "ps = split_str CHR '','' v" by (rule is_split_unique)
    moreover from tr have "ts = map trim ps" by (rule list_all2_trimmed)
    ultimately show ?thesis by (simp add: tagsChange_def)
  qed
  have B: "f_tags (tagsChange ''prod, web,  linux ,'' fd) = Some [''prod'', ''web'', ''linux'']"
    by (simp add: tagsChange_def trim_def isWhiteSpace_def)
  from A B show ?thesis
    by (auto simp: split_str_is_split list_all2_trim)
qed

theorem tags_field_witness:
  "is_split CHR '','' ''a, b,'' [''a'', '' b'', '''']
   \<and> list_all2 is_trimmed [''a'', '' b'', ''''] [''a'', ''b'', '''']
   \<and> tagsChange ''a, b,'' (initialFormData None) = (initialFormData None)\<lparr>f_tags := Some [''a'', ''b'']\<rparr>"
proof -
  have s: "is_split CHR '','' ''a, b,'' [''a'', '' b'', '''']"
    by (simp add: is_split_def)
  have "is_trimmed '' b'' (trim '' b'')" by (rule trim_is_trimmed)
  then have b: "is_trimmed '' b'' ''b''" by (simp add: trim_def isWhiteSpace_def)
  have "is_trimmed ''a'' (trim ''a'')" by (rule trim_is_trimmed)
  then have a: "is_trimmed ''a'' ''a''" by (simp add: trim_def isWhiteSpace_def)
  have "is_trimmed '''' (trim '''')" by (rule trim_is_trimmed)
  then have e: "is_trimmed '''' ''''" by (simp add: trim_def)
  from a b e have t: "list_all2 is_trimmed [''a'', '' b'', ''''] [''a'', ''b'', '''']"
    by simp
  have "tagsChange ''a, b,'' (initialFormData None)
      = (initialFormData None)\<lparr>f_tags := Some (filter (\<lambda>t. t \<noteq> []) [''a'', ''b'', ''''])\<rparr>"
    using tags_field [of "''a, b,''" "initialFormData None"] s t by blast
  with s t show ?thesis
    by simp
qed

section \<open>The port field\<close>







section \<open>Searching in the sidebar\<close>















section \<open>Browsing in the sidebar\<close>

lemma under_groups_treeView:
  "set (under_groups (treeView [] gs hs))
     = {h \<in> set hs. \<exists>g \<in> set gs. isExpanded g \<and> groupId h = Some (group_id g)}"
  by (auto simp: treeView_def split: if_splits)

lemma ungrouped_treeView:
  "ungrouped (treeView [] gs hs) = filter (\<lambda>h. \<not> truthy (groupId h)) hs"
  by (simp add: treeView_def)

text \<open>
  Claim C8. With an empty search text, a host with no \<open>groupId\<close> (absent, or the empty
  string that the editor stores for "None") is in the trailing ungrouped section,
  whatever the groups and their expanded or collapsed state are: that section does not
  depend on the groups at all. A host whose \<open>groupId\<close> names a group that does not
  exist is shown nowhere: under no group, and not in the ungrouped section.
\<close>

theorem browse_sections:
  "(h \<in> set hs \<and> (groupId h = None \<or> groupId h = Some []) \<longrightarrow>
      h \<in> set (ungrouped (treeView [] gs hs)))
   \<and> (\<forall>g. groupId h = Some g \<and> g \<noteq> [] \<and> g \<notin> group_id ` set gs \<longrightarrow>
      h \<notin> set (under_groups (treeView [] gs hs)) \<and> h \<notin> set (ungrouped (treeView [] gs hs)))
   \<and> ungrouped (treeView [] gs hs) = ungrouped (treeView [] gs' hs)"
  by (auto simp: under_groups_treeView ungrouped_treeView truthy_def)

theorem browse_sections_witness:
  "labHosts ! 1 \<in> set labHosts \<and> groupId (labHosts ! 1) = None
   \<and> labHosts ! 1 \<in> set (ungrouped (treeView [] INITIAL_GROUPS labHosts))
   \<and> labHosts ! 4 \<in> set labHosts \<and> groupId (labHosts ! 4) = Some []
   \<and> labHosts ! 4 \<in> set (ungrouped (treeView [] INITIAL_GROUPS labHosts))
   \<and> labHosts ! 3 \<in> set labHosts \<and> groupId (labHosts ! 3) = Some ''g9''
   \<and> ''g9'' \<notin> group_id ` set INITIAL_GROUPS
   \<and> labHosts ! 3 \<notin> set (under_groups (treeView [] INITIAL_GROUPS labHosts))
   \<and> labHosts ! 3 \<notin> set (ungrouped (treeView [] INITIAL_GROUPS labHosts))"
proof -
  have a: "labHosts ! 1 \<in> set labHosts \<and> groupId (labHosts ! 1) = None"
    by (simp add: labHosts_def seed_host_def)
  have b: "labHosts ! 4 \<in> set labHosts \<and> groupId (labHosts ! 4) = Some []"
    by (simp add: labHosts_def seed_host_def)
  have c: "labHosts ! 3 \<in> set labHosts \<and> groupId (labHosts ! 3) = Some ''g9''
      \<and> ''g9'' \<noteq> [] \<and> ''g9'' \<notin> group_id ` set INITIAL_GROUPS"
    by (simp add: labHosts_def seed_host_def INITIAL_GROUPS_def)
  from a browse_sections [of "labHosts ! 1" labHosts INITIAL_GROUPS INITIAL_GROUPS]
  have a': "labHosts ! 1 \<in> set (ungrouped (treeView [] INITIAL_GROUPS labHosts))" by blast
  from b browse_sections [of "labHosts ! 4" labHosts INITIAL_GROUPS INITIAL_GROUPS]
  have b': "labHosts ! 4 \<in> set (ungrouped (treeView [] INITIAL_GROUPS labHosts))" by blast
  from c browse_sections [of "labHosts ! 3" labHosts INITIAL_GROUPS INITIAL_GROUPS]
  have c': "labHosts ! 3 \<notin> set (under_groups (treeView [] INITIAL_GROUPS labHosts))
      \<and> labHosts ! 3 \<notin> set (ungrouped (treeView [] INITIAL_GROUPS labHosts))" by blast
  from a b c a' b' c' show ?thesis by blast
qed

section \<open>Lists of tabs\<close>

lemma decimals: "decimal 5 = ''5''" "decimal 6 = ''6''" "decimal 7 = ''7''" "decimal 8 = ''8''"
  "decimal 42 = ''42''"
  by (simp_all add: decimal.simps digit_char_def)

lemma active_after_map:
  "length (filter isActive (map (\<lambda>t. t\<lparr>isActive := P t\<rparr>) ts)) = length (filter P ts)"
  by (induction ts) auto

lemma none_active_after_map: "filter isActive (map (\<lambda>t. t\<lparr>isActive := False\<rparr>) ts) = []"
  by (induction ts) auto

lemma tab_id_after_map: "map tab_id (map (\<lambda>t. t\<lparr>isActive := P t\<rparr>) ts) = map tab_id ts"
  by (induction ts) auto


lemma one_with_key:
  "distinct (map f xs) \<Longrightarrow> x \<in> f ` set xs \<Longrightarrow> length (filter (\<lambda>t. f t = x) xs) = 1"
proof (induction xs)
  case Nil
  then show ?case by simp
next
  case (Cons a xs)
  show ?case
  proof (cases "f a = x")
    case True
    with Cons.prems have "x \<notin> f ` set xs" by auto
    then have "filter (\<lambda>t. f t = x) xs = []"
      by (auto simp: filter_empty_conv)
    with True show ?thesis by simp
  next
    case False
    with Cons show ?thesis by auto
  qed
qed

lemma find_first:
  "x \<in> f ` set xs \<Longrightarrow> \<exists>i<length xs. f (xs ! i) = x \<and> find (\<lambda>t. f t = x) xs = Some (xs ! i)"
proof (induction xs)
  case Nil
  then show ?case by simp
next
  case (Cons a xs)
  show ?case
  proof (cases "f a = x")
    case True
    then have "f ((a # xs) ! 0) = x \<and> find (\<lambda>t. f t = x) (a # xs) = Some ((a # xs) ! 0)"
      by simp
    then show ?thesis by blast
  next
    case False
    with Cons obtain i where "i < length xs" and "f (xs ! i) = x"
      and "find (\<lambda>t. f t = x) xs = Some (xs ! i)" by auto
    with False have "Suc i < length (a # xs) \<and> f ((a # xs) ! Suc i) = x
        \<and> find (\<lambda>t. f t = x) (a # xs) = Some ((a # xs) ! Suc i)"
      by simp
    then show ?thesis by blast
  qed
qed

lemma filter_others: "x \<notin> f ` set xs \<Longrightarrow> filter (\<lambda>t. f t \<noteq> x) xs = xs"
  by (induction xs) auto

lemma find_after: "find P xs = None \<Longrightarrow> find P (xs @ ys) = find P ys"
  by (induction xs) (auto split: if_splits)

lemma find_absent: "x \<notin> f ` set xs \<Longrightarrow> find (\<lambda>t. f t = x) xs = None"
  by (auto simp: find_None_iff)

lemma map_butlast_last: "r \<noteq> [] \<Longrightarrow> map f (butlast r) @ [f (last r)] = map f r"
  by (induction r rule: rev_induct) auto

section \<open>Closing a tab\<close>

lemma closeTab_absent:
  "tid \<notin> tab_id ` set (tabs s) \<Longrightarrow> tabs (handleCloseTab tid s) = tabs s"
proof -
  assume a: "tid \<notin> tab_id ` set (tabs s)"
  then have f: "filter (\<lambda>t. tab_id t \<noteq> tid) (tabs s) = tabs s"
    by (rule filter_others)
  from a have "find (\<lambda>t. tab_id t = tid) (tabs s) = None"
    by (rule find_absent)
  with f show ?thesis
    by (simp add: handleCloseTab_def)
qed

lemma update_last: "xs \<noteq> [] \<Longrightarrow> xs[length xs - Suc 0 := x] = butlast xs @ [x]"
  by (induction xs rule: rev_induct) auto

lemma promote_last:
  "r \<noteq> [] \<Longrightarrow>
   r[length r - Suc 0 := (r ! (length r - Suc 0))\<lparr>isActive := True\<rparr>]
     = butlast r @ [(last r)\<lparr>isActive := True\<rparr>]"
  by (simp add: update_last last_conv_nth)

lemma closeTab_present:
  assumes "tabs s = pre @ t # suf" and "tab_id t = tid" and "distinct (map tab_id (tabs s))"
  shows "tabs (handleCloseTab tid s) =
           (if pre @ suf \<noteq> [] \<and> isActive t
            then butlast (pre @ suf) @ [(last (pre @ suf))\<lparr>isActive := True\<rparr>]
            else pre @ suf)"
proof -
  from assms have np: "tid \<notin> tab_id ` set pre" and ns: "tid \<notin> tab_id ` set suf"
    by auto
  from np ns have fi: "filter (\<lambda>t. tab_id t \<noteq> tid) (tabs s) = pre @ suf"
    by (simp add: assms(1) assms(2) filter_others)
  from np have "find (\<lambda>t. tab_id t = tid) pre = None" by (rule find_absent)
  then have fd: "find (\<lambda>t. tab_id t = tid) (tabs s) = Some t"
    by (simp add: assms(1) assms(2) find_after)
  define r where "r = pre @ suf"
  from fi have fr: "filter (\<lambda>t. tab_id t \<noteq> tid) (tabs s) = r"
    by (simp add: r_def)
  have "tabs (handleCloseTab tid s) =
      (if r \<noteq> [] \<and> isActive t then butlast r @ [(last r)\<lparr>isActive := True\<rparr>] else r)"
    unfolding handleCloseTab_def Let_def fr fd
    by (simp add: promote_last)
  then show ?thesis
    by (simp only: r_def)
qed

lemma twoTabsOneClock_tabs:
  "tabs twoTabsOneClock =
     [\<lparr>tab_id = ''t5'', hostId = ''h1'', isActive = False\<rparr>,
      \<lparr>tab_id = ''t5'', hostId = ''h2'', isActive = True\<rparr>]"
  by (simp add: twoTabsOneClock_def noTabs_def initialApp_def handleConnect_def decimals)

text \<open>
  Claim C3, as amended. When the ids of the open tabs are pairwise distinct and \<open>tid\<close> is
  the id of one of them, \<open>closeTab\<close> removes exactly that tab \<open>t\<close> and keeps the others in
  their order. If \<open>t\<close> was active and tabs remain, the last of the remaining tabs becomes
  active and nothing else changes; if \<open>t\<close> was not active, the remaining tabs are as they
  were; if no tab remains, the list is empty and there is no active tab, hence no active
  host.
\<close>

theorem closeTab_removes:
  assumes "distinct (map tab_id (tabs s))" and "tid \<in> tab_id ` set (tabs s)"
  shows "\<exists>pre t suf. tabs s = pre @ t # suf \<and> tab_id t = tid
      \<and> map tab_id (tabs (handleCloseTab tid s)) = map tab_id (pre @ suf)
      \<and> map hostId (tabs (handleCloseTab tid s)) = map hostId (pre @ suf)
      \<and> (isActive t \<and> pre @ suf \<noteq> [] \<longrightarrow>
           tabs (handleCloseTab tid s) = butlast (pre @ suf) @ [(last (pre @ suf))\<lparr>isActive := True\<rparr>])
      \<and> (\<not> isActive t \<longrightarrow> tabs (handleCloseTab tid s) = pre @ suf)
      \<and> (pre @ suf = [] \<longrightarrow>
           tabs (handleCloseTab tid s) = [] \<and> activeTab (handleCloseTab tid s) = None
           \<and> activeHost (handleCloseTab tid s) = None)"
proof -
  from assms(2) obtain t where "t \<in> set (tabs s)" and id: "tab_id t = tid" by auto
  then obtain pre suf where sp: "tabs s = pre @ t # suf"
    by (auto simp: in_set_conv_decomp)
  note r = closeTab_present [OF sp id assms(1)]
  have ids: "map f (butlast r @ [(last r)\<lparr>isActive := True\<rparr>]) = map f r"
    if "r \<noteq> []" and "\<And>x. f (x\<lparr>isActive := True\<rparr>) = f x" for r :: "Tab list" and f :: "Tab \<Rightarrow> string"
  proof -
    have "map f (butlast r @ [last r]) = map f r"
      by (simp only: append_butlast_last_id [OF that(1)])
    then have "map f (butlast r) @ [f (last r)] = map f r"
      by simp
    with that(2) show ?thesis by simp
  qed
  have 1: "map tab_id (tabs (handleCloseTab tid s)) = map tab_id (pre @ suf)"
    unfolding r using ids [of "pre @ suf" tab_id] by (simp del: append_is_Nil_conv map_append)
  have 2: "map hostId (tabs (handleCloseTab tid s)) = map hostId (pre @ suf)"
    unfolding r using ids [of "pre @ suf" hostId] by (simp del: append_is_Nil_conv map_append)
  have 3: "pre @ suf = [] \<longrightarrow>
      tabs (handleCloseTab tid s) = [] \<and> activeTab (handleCloseTab tid s) = None
      \<and> activeHost (handleCloseTab tid s) = None"
    by (simp add: r activeTab_def activeHost_def)
  from sp id 1 2 3 r show ?thesis
    by (intro exI [of _ pre] exI [of _ t] exI [of _ suf]) (simp del: append_is_Nil_conv)
qed

theorem closeTab_removes_witness:
  "distinct (map tab_id (tabs threeTabs)) \<and> ''t2'' \<in> tab_id ` set (tabs threeTabs)
   \<and> map tab_id (tabs (handleCloseTab ''t2'' threeTabs)) = [''t1'', ''t3'']
   \<and> tabs (handleCloseTab ''t2'' threeTabs)
       = [\<lparr>tab_id = ''t1'', hostId = ''h1'', isActive = False\<rparr>,
          \<lparr>tab_id = ''t3'', hostId = ''h3'', isActive = True\<rparr>]
   \<and> tabs (handleCloseTab ''t1'' threeTabs)
       = [\<lparr>tab_id = ''t2'', hostId = ''h2'', isActive = True\<rparr>,
          \<lparr>tab_id = ''t3'', hostId = ''h3'', isActive = False\<rparr>]
   \<and> tabs (handleCloseTab ''t1'' initialApp) = []
   \<and> activeTab (handleCloseTab ''t1'' initialApp) = None"
proof -
  have d: "distinct (map tab_id (tabs threeTabs))" by (simp add: threeTabs_def)
  have p: "''t2'' \<in> tab_id ` set (tabs threeTabs)" by (simp add: threeTabs_def)
  from closeTab_removes [OF d p] obtain pre t suf where sp: "tabs threeTabs = pre @ t # suf"
    and t: "tab_id t = ''t2''"
    and ids: "map tab_id (tabs (handleCloseTab ''t2'' threeTabs)) = map tab_id (pre @ suf)"
    by blast
  from sp t have "pre = [\<lparr>tab_id = ''t1'', hostId = ''h1'', isActive = False\<rparr>]
      \<and> suf = [\<lparr>tab_id = ''t3'', hostId = ''h3'', isActive = False\<rparr>]"
    by (auto simp: threeTabs_def Cons_eq_append_conv)
  with ids have i: "map tab_id (tabs (handleCloseTab ''t2'' threeTabs)) = [''t1'', ''t3'']"
    by simp
  have e: "tabs (handleCloseTab ''t2'' threeTabs)
       = [\<lparr>tab_id = ''t1'', hostId = ''h1'', isActive = False\<rparr>,
          \<lparr>tab_id = ''t3'', hostId = ''h3'', isActive = True\<rparr>]"
    by (simp add: threeTabs_def handleCloseTab_def)
  have e1: "tabs (handleCloseTab ''t1'' threeTabs)
       = [\<lparr>tab_id = ''t2'', hostId = ''h2'', isActive = True\<rparr>,
          \<lparr>tab_id = ''t3'', hostId = ''h3'', isActive = False\<rparr>]"
    by (simp add: threeTabs_def handleCloseTab_def)
  have e0: "tabs (handleCloseTab ''t1'' initialApp) = []
      \<and> activeTab (handleCloseTab ''t1'' initialApp) = None"
    by (simp add: initialApp_def handleCloseTab_def activeTab_def)
  from d p i e e1 e0 show ?thesis by blast
qed

text \<open>
  The claim as stated fails where two open tabs have one id, which two \<open>connect\<close> calls
  at the same clock reading produce: closing that id removes both tabs.
\<close>

theorem closeTab_counterexample:
  "tabs twoTabsOneClock =
     [\<lparr>tab_id = ''t5'', hostId = ''h1'', isActive = False\<rparr>,
      \<lparr>tab_id = ''t5'', hostId = ''h2'', isActive = True\<rparr>]
   \<and> ''t5'' \<in> tab_id ` set (tabs twoTabsOneClock)
   \<and> tabs (handleCloseTab ''t5'' twoTabsOneClock) = []"
  by (simp add: twoTabsOneClock_tabs handleCloseTab_def)

section \<open>Connecting: the tabs and the hosts\<close>


lemma connect_new_tabs:
  "hid \<notin> hostId ` set (tabs s) \<Longrightarrow>
   tabs (handleConnect now hid s) =
     map (\<lambda>t. t\<lparr>isActive := False\<rparr>) (tabs s)
       @ [\<lparr>tab_id = ''t'' @ decimal now, hostId = hid, isActive = True\<rparr>]"
  by (simp add: handleConnect_def find_absent)

lemma connect_existing_tabs:
  assumes "hid \<in> hostId ` set (tabs s)"
  shows "\<exists>i<length (tabs s). hostId (tabs s ! i) = hid
      \<and> tabs (handleConnect now hid s)
          = map (\<lambda>t. t\<lparr>isActive := (tab_id t = tab_id (tabs s ! i))\<rparr>) (tabs s)"
proof -
  from find_first [OF assms] obtain i where i: "i < length (tabs s)" and h: "hostId (tabs s ! i) = hid"
    and f: "find (\<lambda>t. hostId t = hid) (tabs s) = Some (tabs s ! i)" by blast
  have "tabs (handleConnect now hid s)
      = map (\<lambda>t. t\<lparr>isActive := (tab_id t = tab_id (tabs s ! i))\<rparr>) (tabs s)"
    by (simp add: handleConnect_def f)
  with i h show ?thesis by blast
qed




section \<open>The single active tab\<close>

lemma connect_ok:
  assumes "tabs_ok (tabs s)" and "in_range (Connect hid now) s"
  shows "tabs_ok (tabs (handleConnect now hid s))"
proof (cases "hid \<in> hostId ` set (tabs s)")
  case True
  from connect_existing_tabs [OF True] obtain i where i: "i < length (tabs s)"
    and t: "tabs (handleConnect now hid s)
        = map (\<lambda>t. t\<lparr>isActive := (tab_id t = tab_id (tabs s ! i))\<rparr>) (tabs s)" by blast
  from assms(1) have d: "distinct (map tab_id (tabs s))" by (simp add: tabs_ok_def)
  from i have "tab_id (tabs s ! i) \<in> tab_id ` set (tabs s)" by simp
  with d have "length (filter (\<lambda>t. tab_id t = tab_id (tabs s ! i)) (tabs s)) = 1"
    by (rule one_with_key)
  then have "length (filter isActive (tabs (handleConnect now hid s))) = 1"
    by (simp only: t active_after_map)
  moreover from d have "distinct (map tab_id (tabs (handleConnect now hid s)))"
    by (simp only: t tab_id_after_map)
  ultimately show ?thesis by (simp add: tabs_ok_def single_active_def)
next
  case False
  with assms(2) have fresh: "''t'' @ decimal now \<notin> tab_id ` set (tabs s)" by simp
  from assms(1) have d: "distinct (map tab_id (tabs s))" by (simp add: tabs_ok_def)
  have t: "tabs (handleConnect now hid s) =
     map (\<lambda>t. t\<lparr>isActive := False\<rparr>) (tabs s)
       @ [\<lparr>tab_id = ''t'' @ decimal now, hostId = hid, isActive = True\<rparr>]"
    using False by (rule connect_new_tabs)
  have "length (filter isActive (tabs (handleConnect now hid s))) = 1"
    by (simp add: t none_active_after_map)
  moreover have "distinct (map tab_id (tabs (handleConnect now hid s)))"
    using d fresh by (simp add: t tab_id_after_map del: map_map) 
  ultimately show ?thesis by (simp add: tabs_ok_def single_active_def)
qed

lemma select_ok:
  assumes "tabs_ok (tabs s)" and "tid \<in> tab_id ` set (tabs s)"
  shows "tabs_ok (tabs (handleSelectTab tid s))"
proof -
  have t: "tabs (handleSelectTab tid s) = map (\<lambda>t. t\<lparr>isActive := (tab_id t = tid)\<rparr>) (tabs s)"
    by (simp add: handleSelectTab_def)
  from assms(1) have d: "distinct (map tab_id (tabs s))" by (simp add: tabs_ok_def)
  from d assms(2) have "length (filter (\<lambda>t. tab_id t = tid) (tabs s)) = 1"
    by (rule one_with_key)
  then have "length (filter isActive (tabs (handleSelectTab tid s))) = 1"
    by (simp only: t active_after_map)
  moreover from d have "distinct (map tab_id (tabs (handleSelectTab tid s)))"
    by (simp only: t tab_id_after_map)
  ultimately show ?thesis by (simp add: tabs_ok_def single_active_def)
qed

lemma close_ok:
  assumes "tabs_ok (tabs s)"
  shows "tabs_ok (tabs (handleCloseTab tid s))"
proof (cases "tid \<in> tab_id ` set (tabs s)")
  case False
  with assms show ?thesis by (simp add: closeTab_absent)
next
  case True
  from assms have d: "distinct (map tab_id (tabs s))" and sa: "single_active (tabs s)"
    by (simp_all add: tabs_ok_def)
  from True obtain t where "t \<in> set (tabs s)" and id: "tab_id t = tid" by auto
  then obtain pre suf where sp: "tabs s = pre @ t # suf"
    by (auto simp: in_set_conv_decomp)
  define r where "r = pre @ suf"
  have res: "tabs (handleCloseTab tid s) =
      (if r \<noteq> [] \<and> isActive t then butlast r @ [(last r)\<lparr>isActive := True\<rparr>] else r)"
    unfolding r_def by (rule closeTab_present [OF sp id d])
  from sa sp have one: "length (filter isActive pre) + (if isActive t then 1 else 0)
      + length (filter isActive suf) = 1"
    by (auto simp: single_active_def)
  have dr: "distinct (map tab_id r)"
    using d by (simp add: sp r_def)
  show ?thesis
  proof (cases "r \<noteq> [] \<and> isActive t")
    case True
    with one have "filter isActive r = []" by (simp add: r_def)
    then have "filter isActive (butlast r) = []"
      by (auto simp: filter_empty_conv dest: in_set_butlastD)
    then have a: "length (filter isActive (tabs (handleCloseTab tid s))) = 1"
      using True by (simp add: res)
    from True have rne: "r \<noteq> []" by simp
    have "map tab_id (tabs (handleCloseTab tid s)) = map tab_id r"
      using True by (simp add: res map_butlast_last [OF rne])
    with dr a show ?thesis by (simp add: tabs_ok_def single_active_def)
  next
    case False
    then have res': "tabs (handleCloseTab tid s) = r" by (simp only: res if_False)
    show ?thesis
    proof (cases "isActive t")
      case True
      with False have "r = []" by simp
      with res' show ?thesis by (simp add: tabs_ok_def single_active_def)
    next
      case False
      with one have "length (filter isActive r) = 1" by (simp add: r_def)
      with dr res' show ?thesis by (simp add: tabs_ok_def single_active_def)
    qed
  qed
qed

lemma perform_ok: "tabs_ok (tabs s) \<Longrightarrow> in_range c s \<Longrightarrow> tabs_ok (tabs (perform c s))"
  by (cases c) (simp_all add: connect_ok close_ok select_ok)

lemma run_ok:
  "tabs_ok (tabs s) \<Longrightarrow> all_in_range s cs \<Longrightarrow> \<forall>s' \<in> set (run s cs). tabs_ok (tabs s')"
proof (induction cs arbitrary: s)
  case Nil
  then show ?case by simp
next
  case (Cons c cs)
  from Cons.prems have "tabs_ok (tabs (perform c s))" by (simp add: perform_ok)
  moreover from Cons.prems have "all_in_range (perform c s) cs" by simp
  ultimately have "\<forall>s' \<in> set (run (perform c s) cs). tabs_ok (tabs s')"
    by (rule Cons.IH)
  with \<open>tabs_ok (tabs (perform c s))\<close> show ?case by simp
qed

text \<open>
  Claim C1, as amended. For any sequence of \<open>connect\<close>, \<open>closeTab\<close> and \<open>selectTab\<close>
  calls that starts from an empty tab list, in which every \<open>selectTab\<close> names a tab that
  is open when it is called and every \<open>connect\<close> that opens a new tab gives it an id that
  no open tab has: after each call the tab list is empty or exactly one tab is active.
  The arguments of \<open>closeTab\<close>, and the host ids, are arbitrary.
\<close>

theorem single_active_tab:
  assumes "tabs s = []" and "all_in_range s cs"
  shows "\<forall>s' \<in> set (run s cs). single_active (tabs s')"
proof -
  from assms(1) have "tabs_ok (tabs s)" by (simp add: tabs_ok_def single_active_def)
  from run_ok [OF this assms(2)] show ?thesis by (simp add: tabs_ok_def)
qed

theorem single_active_tab_witness:
  "tabs noTabs = [] \<and> all_in_range noTabs someCalls
   \<and> list_all (\<lambda>s. single_active (tabs s)) (run noTabs someCalls)
   \<and> map (\<lambda>s. map isActive (tabs s)) (run noTabs someCalls)
       = [[True], [False, True], [True, False], [True], [False, True], [True, False],
          [True, False], [True], []]"
proof -
  have e: "tabs noTabs = []" by (simp add: noTabs_def)
  have r: "all_in_range noTabs someCalls"
    by (simp add: someCalls_def noTabs_def initialApp_def handleConnect_def handleSelectTab_def
        handleCloseTab_def decimals)
  have m: "map (\<lambda>s. map isActive (tabs s)) (run noTabs someCalls)
       = [[True], [False, True], [True, False], [True], [False, True], [True, False],
          [True, False], [True], []]"
    by (simp add: someCalls_def noTabs_def initialApp_def handleConnect_def handleSelectTab_def
        handleCloseTab_def decimals)
  from single_active_tab [OF e r] have "list_all (\<lambda>s. single_active (tabs s)) (run noTabs someCalls)"
    by (simp add: list_all_iff)
  with e r m show ?thesis by simp
qed

text \<open>
  The claim as stated fails: \<open>selectTab\<close> with an id that no tab has deactivates every
  tab, so one open tab is left with none active.
\<close>

theorem single_active_counterexample:
  "tabs (last (run noTabs [Connect ''h1'' 5, SelectTab ''x'']))
     = [\<lparr>tab_id = ''t5'', hostId = ''h1'', isActive = False\<rparr>]
   \<and> \<not> single_active (tabs (last (run noTabs [Connect ''h1'' 5, SelectTab ''x''])))"
  by (simp add: noTabs_def initialApp_def handleConnect_def handleSelectTab_def decimals
      single_active_def)

text \<open>It fails as well when the clock gives two tabs one id: both end up active.\<close>

lemma same_clock_two_active:
  "tabs (last (run noTabs [Connect ''h1'' 5, Connect ''h2'' 5, Connect ''h1'' 6]))
     = [\<lparr>tab_id = ''t5'', hostId = ''h1'', isActive = True\<rparr>,
        \<lparr>tab_id = ''t5'', hostId = ''h2'', isActive = True\<rparr>]
   \<and> \<not> single_active (tabs (last (run noTabs [Connect ''h1'' 5, Connect ''h2'' 5, Connect ''h1'' 6])))"
  by (simp add: noTabs_def initialApp_def handleConnect_def decimals single_active_def)

subsection \<open>Distinct clock readings\<close>

text \<open>
  The decimal form of a clock reading determines the reading, so tabs opened at different
  readings have different ids: a sequence of calls whose \<open>connect\<close> calls see pairwise
  different readings, started with no tab open, keeps every \<open>connect\<close> in range.
\<close>

lemma digit_values: "list_all (\<lambda>d. digitValue (digit_char d) = Some d) [0, 1, 2, 3, 4, 5, 6, 7, 8, 9]"
  by (simp add: digitValue_def digit_char_def)

lemma digitValue_digit_char: "d < 10 \<Longrightarrow> digitValue (digit_char d) = Some d"
proof -
  assume "d < 10"
  then have "d \<in> set [0, 1, 2, 3, 4, 5, 6, 7, 8, 9]"
    by (simp add: numeral_eq_Suc less_Suc_eq) 
  with digit_values show ?thesis
    by (simp only: list_all_iff)
qed

lemma mathInt_snoc:
  "mathInt R (Z @ [c]) = (case digitValue c of Some d \<Rightarrow> mathInt R Z * R + d | None \<Rightarrow> mathInt R Z)"
  by (cases "digitValue c") (simp_all add: mathInt_def)

lemma mathInt_decimal: "mathInt 10 (decimal n) = n"
proof (induction n rule: decimal.induct)
  case (1 n)
  show ?case
  proof (cases "n < 10")
    case True
    then have "decimal n = [] @ [digit_char n]" by (simp add: decimal.simps)
    with True show ?thesis
      by (simp only: mathInt_snoc digitValue_digit_char) (simp add: mathInt_def)
  next
    case False
    then have d: "decimal n = decimal (n div 10) @ [digit_char (n mod 10)]"
      by (simp add: decimal.simps)
    from False "1.IH" have "mathInt 10 (decimal (n div 10)) = n div 10" by simp
    then show ?thesis
      by (simp add: d mathInt_snoc digitValue_digit_char)
  qed
qed

lemma decimal_inj: "decimal m = decimal n \<Longrightarrow> m = n"
  by (metis mathInt_decimal)

lemma fresh_clock:
  "\<forall>t \<in> set (tabs s). \<exists>n. tab_id t = ''t'' @ decimal n \<and> n \<noteq> now \<Longrightarrow> in_range (Connect hid now) s"
proof -
  assume H: "\<forall>t \<in> set (tabs s). \<exists>n. tab_id t = ''t'' @ decimal n \<and> n \<noteq> now"
  have "''t'' @ decimal now \<notin> tab_id ` set (tabs s)"
  proof
    assume "''t'' @ decimal now \<in> tab_id ` set (tabs s)"
    then obtain t where t: "t \<in> set (tabs s)" and e: "tab_id t = ''t'' @ decimal now" by auto
    from H t obtain n where "tab_id t = ''t'' @ decimal n" and n: "n \<noteq> now" by blast
    with e have "decimal n = decimal now" by simp
    then have "n = now" by (rule decimal_inj)
    with n show False by simp
  qed
  then show ?thesis by simp
qed

lemma closeTab_ids:
  "map tab_id (tabs (handleCloseTab tid s)) = filter (\<lambda>i. i \<noteq> tid) (map tab_id (tabs s))"
proof -
  have "map tab_id (r[k := (r ! k)\<lparr>isActive := True\<rparr>]) = map tab_id r" for r :: "Tab list" and k
  proof (cases "k < length r")
    case True
    then have "(map tab_id r)[k := map tab_id r ! k] = map tab_id r"
      by (simp only: list_update_id)
    with True show ?thesis by (simp add: map_update)
  next
    case False
    then have "length r \<le> k" by linarith
    then have "r[k := (r ! k)\<lparr>isActive := True\<rparr>] = r" by (rule list_update_beyond)
    then show ?thesis by (rule arg_cong)
  qed
  then show ?thesis
    by (simp add: handleCloseTab_def Let_def filter_map comp_def)
qed

lemma connect_ids:
  "tab_id ` set (tabs (handleConnect now hid s))
     \<subseteq> insert (''t'' @ decimal now) (tab_id ` set (tabs s))"
  by (auto simp: handleConnect_def split: option.splits)

lemma select_ids: "tab_id ` set (tabs (handleSelectTab tid s)) = tab_id ` set (tabs s)"
  by (simp add: handleSelectTab_def image_image)

lemma distinct_clocks_in_range:
  "tab_id ` set (tabs s) \<subseteq> (\<lambda>n. ''t'' @ decimal n) ` N \<Longrightarrow> N \<inter> set (clocks cs) = {} \<Longrightarrow>
   distinct (clocks cs) \<Longrightarrow> selects_open s cs \<Longrightarrow> all_in_range s cs"
proof (induction cs arbitrary: s N)
  case Nil
  then show ?case by simp
next
  case (Cons c cs)
  show ?case
  proof (cases c)
    case (Connect hid now)
    with Cons.prems have nN: "now \<notin> N" by auto
    have "\<forall>t \<in> set (tabs s). \<exists>n. tab_id t = ''t'' @ decimal n \<and> n \<noteq> now"
    proof
      fix t assume "t \<in> set (tabs s)"
      with Cons.prems(1) obtain n where "n \<in> N" and "tab_id t = ''t'' @ decimal n" by auto
      with nN show "\<exists>n. tab_id t = ''t'' @ decimal n \<and> n \<noteq> now" by auto
    qed
    then have r: "in_range (Connect hid now) s" by (rule fresh_clock)
    have "tab_id ` set (tabs (handleConnect now hid s)) \<subseteq> (\<lambda>n. ''t'' @ decimal n) ` insert now N"
      using connect_ids [of now hid s] Cons.prems(1) by auto
    moreover from Cons.prems Connect have "insert now N \<inter> set (clocks cs) = {}" by auto
    moreover from Cons.prems Connect have "distinct (clocks cs)" by simp
    moreover from Cons.prems Connect have "selects_open (handleConnect now hid s) cs" by simp
    ultimately have "all_in_range (handleConnect now hid s) cs" by (rule Cons.IH)
    with r Connect show ?thesis by simp
  next
    case (CloseTab tid)
    have "tab_id ` set (tabs (handleCloseTab tid s)) \<subseteq> tab_id ` set (tabs s)"
      using closeTab_ids [of tid s] by (metis filter_is_subset set_map)
    with Cons.prems(1) have "tab_id ` set (tabs (handleCloseTab tid s)) \<subseteq> (\<lambda>n. ''t'' @ decimal n) ` N"
      by blast
    moreover from Cons.prems CloseTab have "N \<inter> set (clocks cs) = {}" "distinct (clocks cs)"
      "selects_open (handleCloseTab tid s) cs" by simp_all
    ultimately have "all_in_range (handleCloseTab tid s) cs" by (rule Cons.IH)
    with CloseTab show ?thesis by simp
  next
    case (SelectTab tid)
    from Cons.prems(1) have "tab_id ` set (tabs (handleSelectTab tid s)) \<subseteq> (\<lambda>n. ''t'' @ decimal n) ` N"
      by (simp only: select_ids)
    moreover from Cons.prems SelectTab have "N \<inter> set (clocks cs) = {}" "distinct (clocks cs)"
      "selects_open (handleSelectTab tid s) cs" by simp_all
    ultimately have "all_in_range (handleSelectTab tid s) cs" by (rule Cons.IH)
    with Cons.prems SelectTab show ?thesis by simp
  qed
qed

lemma distinct_clocks_single_active:
  assumes "tabs s = []" and "distinct (clocks cs)" and "selects_open s cs"
  shows "\<forall>s' \<in> set (run s cs). single_active (tabs s')"
proof -
  from assms have "all_in_range s cs"
    using distinct_clocks_in_range [of s "{}" cs] by simp
  moreover from assms(1) have "tabs_ok (tabs s)"
    by (simp add: tabs_ok_def single_active_def)
  ultimately have "\<forall>s' \<in> set (run s cs). tabs_ok (tabs s')"
    by (intro run_ok)
  then show ?thesis by (simp add: tabs_ok_def)
qed

section \<open>Saving a host\<close>



text \<open>
  The branch is chosen by the mode, not by the id of the host data: in edit mode, host
  data whose id no host has changes no host and appends none.
\<close>

lemma saveHost_edit_no_match:
  "editingHost s \<noteq> None \<Longrightarrow> host_id h \<notin> host_id ` set (hosts s) \<Longrightarrow>
   hosts (handleSaveHost now h s) = hosts s"
proof -
  assume e: "editingHost s \<noteq> None" and n: "host_id h \<notin> host_id ` set (hosts s)"
  from n have "map (\<lambda>x. if host_id x = host_id h then h else x) (hosts s) = hosts s"
    by (intro map_idI) (auto simp: image_iff)
  with e show ?thesis
    by (cases "editingHost s") (simp_all add: handleSaveHost_def)
qed

end
